theory Spec2Isabelle
  imports Main "HOL-Library.Sublist"
begin

section \<open>The step workflow of brambling/views/utils.py\<close>

text \<open>
  The classes \<^verbatim>\<open>Workflow\<close>, \<^verbatim>\<open>Step\<close> and \<^verbatim>\<open>WorkflowMixin\<close> of
  \<^verbatim>\<open>brambling/views/utils.py\<close>. The methods a concrete step class overrides
  (\<^verbatim>\<open>include_in\<close>, \<^verbatim>\<open>is_active\<close>, \<^verbatim>\<open>_is_completed\<close>, \<^verbatim>\<open>get_errors\<close>) read the
  attributes of the workflow and data owned by the database; they are taken as functions
  of the workflow's attribute dictionary and of an external state \<open>'x\<close>.
\<close>

subsection \<open>Data\<close>

datatype error = ValueError | NotImplementedError | RuntimeError | AttributeError

type_synonym 'v attrs = "string \<rightharpoonup> 'v"

text \<open>
  A step class: its slug, the view name that \<^verbatim>\<open>WorkflowMixin\<close> reverses, and its
  methods. \<open>is_completed_impl\<close> is the method \<^verbatim>\<open>_is_completed\<close>: \<open>None\<close> for a
  class that leaves the base method, which raises \<^verbatim>\<open>NotImplementedError\<close>.
  \<open>Step sl vn\<close> is a class that sets its slug and its view name and keeps every
  method of the base class: \<^verbatim>\<open>include_in\<close> and \<^verbatim>\<open>is_active\<close> are the constant
  \<open>True\<close> and \<^verbatim>\<open>get_errors\<close> is the empty list.
\<close>

record ('v, 'x, 'e) step_class =
  slug :: string
  view_name :: string
  include_in :: "'v attrs \<Rightarrow> 'x \<Rightarrow> bool"
  is_active :: "'v attrs \<Rightarrow> 'x \<Rightarrow> bool"
  is_completed_impl :: "('v attrs \<Rightarrow> 'x \<Rightarrow> bool) option"
  get_errors :: "'v attrs \<Rightarrow> 'x \<Rightarrow> 'e list"


text \<open>
  A step instance, as \<^verbatim>\<open>Step.__init__\<close> leaves it: its class and its index. The
  reference to the workflow is the workflow argument of every method below.
\<close>

record ('v, 'x, 'e) step =
  cls :: "('v, 'x, 'e) step_class"
  index :: nat

text \<open>
  A workflow instance: the attributes set from the keyword arguments, and \<^verbatim>\<open>steps\<close>,
  an \<^verbatim>\<open>OrderedDict\<close> from slug to step, kept as the list of its items in order.
\<close>

record ('v, 'x, 'e) workflow =
  attrs :: "'v attrs"
  steps :: "(string \<times> ('v, 'x, 'e) step) list"

subsection \<open>OrderedDict\<close>

text \<open>
  Setting a key that is present replaces the value and keeps the key's place; a new key
  goes to the end. \<^verbatim>\<open>OrderedDict(items)\<close> sets the items from left to right.
\<close>

fun odict_set :: "('k \<times> 'a) list \<Rightarrow> 'k \<Rightarrow> 'a \<Rightarrow> ('k \<times> 'a) list" where
  "odict_set [] k v = [(k, v)]"
| "odict_set ((k', v') # kvs) k v =
     (if k' = k then (k, v) # kvs else (k', v') # odict_set kvs k v)"

definition OrderedDict :: "('k \<times> 'a) list \<Rightarrow> ('k \<times> 'a) list" where
  "OrderedDict items = foldl (\<lambda>d (k, v). odict_set d k v) [] items"

definition steps_values :: "('v, 'x, 'e) workflow \<Rightarrow> ('v, 'x, 'e) step list" where
  "steps_values w = map snd (steps w)"


subsection \<open>Workflow\<close>

text \<open>
  \<^verbatim>\<open>Workflow.__init__(self, **kwargs)\<close> on a new instance, whose attribute dictionary
  is empty. A raise is \<open>Inl\<close> of the exception together with the attributes that the
  instance has at that moment. The loop of \<^verbatim>\<open>setattr\<close> adds every keyword argument.
\<close>

definition Workflow_init ::
  "('v, 'x, 'e) step_class list \<Rightarrow> 'x \<Rightarrow> 'v attrs \<Rightarrow>
     (error \<times> 'v attrs) + ('v, 'x, 'e) workflow" where
  "Workflow_init step_classes x kwargs =
     (let self = Map.empty in
      if kwargs ''steps'' \<noteq> None then Inl (ValueError, self)
      else
        let self = self ++ kwargs;
            cls_iter = filter (\<lambda>c. include_in c self x) step_classes
        in Inr \<lparr>attrs = self,
                steps = OrderedDict (map (\<lambda>(i, c). (slug c, \<lparr>cls = c, index = i\<rparr>))
                                         (enumerate 0 cls_iter))\<rparr>)"

definition active_steps :: "('v, 'x, 'e) workflow \<Rightarrow> 'x \<Rightarrow> ('v, 'x, 'e) step list" where
  "active_steps w x = filter (\<lambda>s. is_active (cls s) (attrs w) x) (steps_values w)"

subsection \<open>Step: navigation\<close>

definition previous_step ::
  "('v, 'x, 'e) workflow \<Rightarrow> 'x \<Rightarrow> ('v, 'x, 'e) step \<Rightarrow> ('v, 'x, 'e) step option" where
  "previous_step w x s =
     find (\<lambda>t. is_active (cls t) (attrs w) x) (rev (take (index s) (steps_values w)))"

definition next_step ::
  "('v, 'x, 'e) workflow \<Rightarrow> 'x \<Rightarrow> ('v, 'x, 'e) step \<Rightarrow> ('v, 'x, 'e) step option" where
  "next_step w x s =
     find (\<lambda>t. is_active (cls t) (attrs w) x) (drop (index s + 1) (steps_values w))"

subsection \<open>Step: memoised attributes\<close>

text \<open>
  \<^verbatim>\<open>_completed\<close> and \<^verbatim>\<open>_errors\<close> are attributes that a step instance gets on first
  use (\<^verbatim>\<open>hasattr\<close> is false before). The store keeps them for every instance.
  \<^verbatim>\<open>Workflow.__init__\<close> gives each instance it creates an index of its own, and the
  store is addressed by it. \<open>calls\<close> is a probe: it records, latest first, every
  invocation of \<^verbatim>\<open>_is_completed\<close> and of \<^verbatim>\<open>get_errors\<close> with the instance it is
  invoked on.
\<close>

datatype probe = Called_is_completed nat | Called_get_errors nat

record 'e memo =
  completed_attr :: "nat \<rightharpoonup> bool"
  errors_attr :: "nat \<rightharpoonup> 'e list"
  calls :: "probe list"

definition memo0 :: "'e memo" where
  "memo0 = \<lparr>completed_attr = Map.empty, errors_attr = Map.empty, calls = []\<rparr>"

definition errors ::
  "('v, 'x, 'e) workflow \<Rightarrow> 'x \<Rightarrow> ('v, 'x, 'e) step \<Rightarrow> 'e memo \<Rightarrow> 'e list \<times> 'e memo" where
  "errors w x s m =
     (case errors_attr m (index s) of
        Some es \<Rightarrow> (es, m)
      | None \<Rightarrow>
          let es = get_errors (cls s) (attrs w) x
          in (es, m\<lparr>errors_attr := (errors_attr m)(index s \<mapsto> es),
                    calls := Called_get_errors (index s) # calls m\<rparr>))"

definition is_valid ::
  "('v, 'x, 'e) workflow \<Rightarrow> 'x \<Rightarrow> ('v, 'x, 'e) step \<Rightarrow> 'e memo \<Rightarrow> bool \<times> 'e memo" where
  "is_valid w x s m = (case errors w x s m of (es, m') \<Rightarrow> (es = [], m'))"

text \<open>
  The first statement of \<^verbatim>\<open>is_completed\<close>: \<^verbatim>\<open>_is_completed\<close> is invoked when the
  attribute is not there; when it raises, nothing is stored.
\<close>

definition load_completed ::
  "('v, 'x, 'e) workflow \<Rightarrow> 'x \<Rightarrow> ('v, 'x, 'e) step \<Rightarrow> 'e memo \<Rightarrow>
     (error + bool) \<times> 'e memo" where
  "load_completed w x s m =
     (case completed_attr m (index s) of
        Some c \<Rightarrow> (Inr c, m)
      | None \<Rightarrow>
          let m' = m\<lparr>calls := Called_is_completed (index s) # calls m\<rparr>
          in (case is_completed_impl (cls s) of
                None \<Rightarrow> (Inl NotImplementedError, m')
              | Some f \<Rightarrow>
                  let c = f (attrs w) x
                  in (Inr c, m'\<lparr>completed_attr := (completed_attr m')(index s \<mapsto> c)\<rparr>)))"

text \<open>
  \<^verbatim>\<open>is_completed\<close> calls itself on the previous step. Python bounds the depth of
  calls; the first argument is the number of nested calls of \<^verbatim>\<open>is_completed\<close> still
  allowed, and the call beyond it raises \<^verbatim>\<open>RuntimeError\<close> (maximum recursion depth
  exceeded). The \<^verbatim>\<open>and\<close> and \<^verbatim>\<open>or\<close> of the return statement evaluate from
  left to right and stop as soon as the result is known.
\<close>

fun is_completed ::
  "nat \<Rightarrow> ('v, 'x, 'e) workflow \<Rightarrow> 'x \<Rightarrow> ('v, 'x, 'e) step \<Rightarrow> 'e memo \<Rightarrow>
     (error + bool) \<times> 'e memo" where
  "is_completed 0 w x s m = (Inl RuntimeError, m)"
| "is_completed (Suc d) w x s m =
     (case load_completed w x s m of
        (Inl e, m1) \<Rightarrow> (Inl e, m1)
      | (Inr c, m1) \<Rightarrow>
          if \<not> c then (Inr False, m1)
          else (case is_valid w x s m1 of
                  (v, m2) \<Rightarrow>
                    if \<not> v then (Inr False, m2)
                    else (case previous_step w x s of
                            None \<Rightarrow> (Inr True, m2)
                          | Some p \<Rightarrow> is_completed d w x p m2)))"

definition is_accessible ::
  "nat \<Rightarrow> ('v, 'x, 'e) workflow \<Rightarrow> 'x \<Rightarrow> ('v, 'x, 'e) step \<Rightarrow> 'e memo \<Rightarrow>
     (error + bool) \<times> 'e memo" where
  "is_accessible d w x s m =
     (case previous_step w x s of
        None \<Rightarrow> (Inr True, m)
      | Some p \<Rightarrow> is_completed d w x p m)"

subsection \<open>WorkflowMixin\<close>

text \<open>
  \<^verbatim>\<open>self.kwargs\<close> maps a name to a value or to Python's \<^verbatim>\<open>None\<close> (here \<open>None\<close>
  inside \<open>Some\<close>). \<^verbatim>\<open>reverse\<close> is Django's and is a parameter.
\<close>

definition clean_kwargs :: "(string \<rightharpoonup> 'u option) \<Rightarrow> (string \<rightharpoonup> 'u)" where
  "clean_kwargs kwargs = (\<lambda>key. case kwargs key of None \<Rightarrow> None | Some value \<Rightarrow> value)"





text \<open>
  \<^verbatim>\<open>get_success_url\<close>. \<^verbatim>\<open>self.current_step\<close> is what \<^verbatim>\<open>dispatch\<close> has set; an
  attribute read on \<^verbatim>\<open>None\<close> raises \<^verbatim>\<open>AttributeError\<close>.
\<close>

definition get_success_url ::
  "(string \<Rightarrow> (string \<rightharpoonup> 'u) \<Rightarrow> 'loc) \<Rightarrow> (string \<rightharpoonup> 'u option) \<Rightarrow>
     ('v, 'x, 'e) workflow \<Rightarrow> 'x \<Rightarrow> ('v, 'x, 'e) step option \<Rightarrow> 'e memo \<Rightarrow>
     (error + 'loc) \<times> 'e memo" where
  "get_success_url reverse kwargs w x current_step m =
     (case current_step of
        None \<Rightarrow> (Inl AttributeError, m)
      | Some s \<Rightarrow>
          (case errors w x s m of
             (es, m') \<Rightarrow>
               if es \<noteq> [] then (Inr (reverse (view_name (cls s)) (clean_kwargs kwargs)), m')
               else (case next_step w x s of
                       None \<Rightarrow> (Inl AttributeError, m')
                     | Some n \<Rightarrow>
                         (Inr (reverse (view_name (cls n)) (clean_kwargs kwargs)), m'))))"

subsection \<open>Well-formed workflows and the values behind the memo\<close>

text \<open>
  Notions for the proofs. \<open>instances_distinct\<close>: no two steps of the workflow have the
  same index, as for every workflow that \<^verbatim>\<open>Workflow.__init__\<close> builds.
  \<open>dense_indices\<close>: the index of every step is its position in \<^verbatim>\<open>steps.values()\<close>.
  \<open>eff_completed\<close> and \<open>eff_errors\<close>: the value that \<^verbatim>\<open>_completed\<close> and
  \<^verbatim>\<open>_errors\<close> have, or get when they are first computed in the external state \<open>x\<close>.
  \<open>completed_val\<close> and \<open>accessible_val\<close>: the results of \<^verbatim>\<open>is_completed\<close> and
  \<^verbatim>\<open>is_accessible\<close> in terms of these values. \<open>agree\<close>: two stores give every step
  of the workflow the same values. \<open>probes_ok\<close>: the probe has at most one invocation
  of each method on each instance, and none where the attribute is not yet there.
\<close>

definition instances_distinct :: "('v, 'x, 'e) workflow \<Rightarrow> bool" where
  "instances_distinct w \<longleftrightarrow> distinct (map index (steps_values w))"

definition eff_completed ::
  "('v, 'x, 'e) workflow \<Rightarrow> 'x \<Rightarrow> 'e memo \<Rightarrow> ('v, 'x, 'e) step \<Rightarrow> error + bool" where
  "eff_completed w x m s =
     (case completed_attr m (index s) of
        Some c \<Rightarrow> Inr c
      | None \<Rightarrow>
          (case is_completed_impl (cls s) of
             None \<Rightarrow> Inl NotImplementedError
           | Some f \<Rightarrow> Inr (f (attrs w) x)))"

definition eff_errors ::
  "('v, 'x, 'e) workflow \<Rightarrow> 'x \<Rightarrow> 'e memo \<Rightarrow> ('v, 'x, 'e) step \<Rightarrow> 'e list" where
  "eff_errors w x m s =
     (case errors_attr m (index s) of
        Some es \<Rightarrow> es
      | None \<Rightarrow> get_errors (cls s) (attrs w) x)"

fun completed_val ::
  "nat \<Rightarrow> ('v, 'x, 'e) workflow \<Rightarrow> 'x \<Rightarrow> 'e memo \<Rightarrow> ('v, 'x, 'e) step \<Rightarrow> error + bool" where
  "completed_val 0 w x m s = Inl RuntimeError"
| "completed_val (Suc d) w x m s =
     (case eff_completed w x m s of
        Inl e \<Rightarrow> Inl e
      | Inr c \<Rightarrow>
          if \<not> c then Inr False
          else if eff_errors w x m s \<noteq> [] then Inr False
          else (case previous_step w x s of
                  None \<Rightarrow> Inr True
                | Some p \<Rightarrow> completed_val d w x m p))"


definition agree ::
  "('v, 'x, 'e) workflow \<Rightarrow> 'x \<Rightarrow> 'e memo \<Rightarrow> 'e memo \<Rightarrow> bool" where
  "agree w x m m' \<longleftrightarrow>
     (\<forall>t\<in>set (steps_values w).
        eff_completed w x m' t = eff_completed w x m t \<and>
        eff_errors w x m' t = eff_errors w x m t)"

definition dense_indices :: "('v, 'x, 'e) workflow \<Rightarrow> bool" where
  "dense_indices w \<longleftrightarrow> map index (steps_values w) = [0..<length (steps w)]"


subsection \<open>Sequences of calls\<close>





subsection \<open>Example steps\<close>

text \<open>
  A concrete step class for every name \<open>n\<close>, in the manner of the steps of an order:
  left out of a workflow that has the attribute \<open>no_n\<close>, switched off by the external
  fact \<open>n_off\<close>, completed by the fact \<open>n_done\<close>, in error by the fact \<open>n_bad\<close>.
\<close>

definition example_step :: "string \<Rightarrow> (bool, string list, string) step_class" where
  "example_step n =
     \<lparr>slug = n, view_name = ''view_'' @ n,
      include_in = (\<lambda>a _. a (''no_'' @ n) = None),
      is_active = (\<lambda>_ x. (n @ ''_off'') \<notin> set x),
      is_completed_impl = Some (\<lambda>_ x. (n @ ''_done'') \<in> set x),
      get_errors = (\<lambda>_ x. if (n @ ''_bad'') \<in> set x then [n @ '' is bad''] else [])\<rparr>"

definition example_workflow :: "(bool, string list, string) workflow" where
  "example_workflow =
     \<lparr>attrs = Map.empty,
      steps = [(''a'', \<lparr>cls = example_step ''a'', index = 0\<rparr>),
               (''b'', \<lparr>cls = example_step ''b'', index = 1\<rparr>),
               (''c'', \<lparr>cls = example_step ''c'', index = 2\<rparr>)]\<rparr>"


section \<open>Construction\<close>

lemma odict_set_fresh: "k \<notin> fst ` set d \<Longrightarrow> odict_set d k v = d @ [(k, v)]"
  by (induction d) auto

lemma foldl_odict_set_distinct:
  "distinct (map fst (d @ items)) \<Longrightarrow>
   foldl (\<lambda>d (k, v). odict_set d k v) d items = d @ items"
proof (induction items arbitrary: d)
  case Nil
  then show ?case by simp
next
  case (Cons kv items)
  obtain k v where kv: "kv = (k, v)" by (cases kv)
  from Cons.prems kv have fresh: "k \<notin> fst ` set d" by auto
  from Cons.prems kv have "distinct (map fst ((d @ [(k, v)]) @ items))" by simp
  from Cons.IH [OF this] show ?case
    by (simp add: kv odict_set_fresh [OF fresh])
qed

lemma OrderedDict_distinct: "distinct (map fst items) \<Longrightarrow> OrderedDict items = items"
  using foldl_odict_set_distinct [of "[]" items] by (simp add: OrderedDict_def)

lemma map_fst_instances:
  "map fst (map (\<lambda>(i, c). (slug c, \<lparr>cls = c, index = i\<rparr>)) (enumerate n cs)) = map slug cs"
  by (induction cs arbitrary: n) auto


lemma map_index_instances:
  "map index (map snd (map (\<lambda>(i, c). (slug c, \<lparr>cls = c, index = i\<rparr>)) (enumerate n cs)))
     = [n..<n + length cs]"
  by (induction cs arbitrary: n) (auto simp: upt_rec)




text \<open>
  C5. With a keyword argument named \<^verbatim>\<open>steps\<close> the constructor raises
  \<^verbatim>\<open>ValueError\<close>: no workflow is returned, and the instance has no attribute at that
  moment.
\<close>

theorem Workflow_init_steps_kwarg:
  "kwargs ''steps'' = Some v \<Longrightarrow> Workflow_init step_classes x kwargs = Inl (ValueError, Map.empty)"
  by (simp add: Workflow_init_def)

theorem Workflow_init_steps_kwarg_witness:
  "[''steps'' \<mapsto> True, ''event'' \<mapsto> False] ''steps'' = Some True \<and>
   Workflow_init [example_step ''a''] [] [''steps'' \<mapsto> True, ''event'' \<mapsto> False]
     = Inl (ValueError, Map.empty)"
  using Workflow_init_steps_kwarg
    [of "[''steps'' \<mapsto> True, ''event'' \<mapsto> False]" True "[example_step ''a'']" "[]"]
  by simp

section \<open>Navigation\<close>

lemma find_Some_split:
  "find P xs = Some x \<longleftrightarrow> (\<exists>ys zs. xs = ys @ x # zs \<and> P x \<and> (\<forall>y\<in>set ys. \<not> P y))"
proof (induction xs)
  case Nil
  then show ?case by simp
next
  case (Cons a xs)
  show ?case
  proof (cases "P a")
    case True
    have "(\<exists>ys zs. a # xs = ys @ x # zs \<and> P x \<and> (\<forall>y\<in>set ys. \<not> P y)) \<longleftrightarrow> a = x"
    proof
      assume "\<exists>ys zs. a # xs = ys @ x # zs \<and> P x \<and> (\<forall>y\<in>set ys. \<not> P y)"
      then obtain ys zs where h: "a # xs = ys @ x # zs" "\<forall>y\<in>set ys. \<not> P y" by blast
      with True show "a = x" by (cases ys) auto
    next
      assume "a = x"
      with True have "a # xs = [] @ x # xs \<and> P x \<and> (\<forall>y\<in>set []. \<not> P y)" by simp
      then show "\<exists>ys zs. a # xs = ys @ x # zs \<and> P x \<and> (\<forall>y\<in>set ys. \<not> P y)" by blast
    qed
    with True show ?thesis by auto
  next
    case False
    have "(\<exists>ys zs. a # xs = ys @ x # zs \<and> P x \<and> (\<forall>y\<in>set ys. \<not> P y))
      \<longleftrightarrow> (\<exists>ys zs. xs = ys @ x # zs \<and> P x \<and> (\<forall>y\<in>set ys. \<not> P y))"
    proof
      assume "\<exists>ys zs. a # xs = ys @ x # zs \<and> P x \<and> (\<forall>y\<in>set ys. \<not> P y)"
      then obtain ys zs where h: "a # xs = ys @ x # zs" "P x" "\<forall>y\<in>set ys. \<not> P y" by blast
      with False obtain ys' where "ys = a # ys'" by (cases ys) auto
      with h have "xs = ys' @ x # zs \<and> P x \<and> (\<forall>y\<in>set ys'. \<not> P y)" by simp
      then show "\<exists>ys zs. xs = ys @ x # zs \<and> P x \<and> (\<forall>y\<in>set ys. \<not> P y)" by blast
    next
      assume "\<exists>ys zs. xs = ys @ x # zs \<and> P x \<and> (\<forall>y\<in>set ys. \<not> P y)"
      then obtain ys zs where h: "xs = ys @ x # zs" "P x" "\<forall>y\<in>set ys. \<not> P y" by blast
      with False have "a # xs = (a # ys) @ x # zs \<and> P x \<and> (\<forall>y\<in>set (a # ys). \<not> P y)" by simp
      then show "\<exists>ys zs. a # xs = ys @ x # zs \<and> P x \<and> (\<forall>y\<in>set ys. \<not> P y)" by blast
    qed
    with False Cons.IH show ?thesis by simp
  qed
qed

lemma find_rev_Some_split:
  "find P (rev xs) = Some x \<longleftrightarrow> (\<exists>ys zs. xs = ys @ x # zs \<and> P x \<and> (\<forall>z\<in>set zs. \<not> P z))"
proof -
  have "(\<exists>ys zs. rev xs = ys @ x # zs \<and> P x \<and> (\<forall>y\<in>set ys. \<not> P y))
    \<longleftrightarrow> (\<exists>ys zs. xs = ys @ x # zs \<and> P x \<and> (\<forall>z\<in>set zs. \<not> P z))"
  proof
    assume "\<exists>ys zs. rev xs = ys @ x # zs \<and> P x \<and> (\<forall>y\<in>set ys. \<not> P y)"
    then obtain ys zs where h: "rev xs = ys @ x # zs" "P x" "\<forall>y\<in>set ys. \<not> P y" by blast
    from h(1) have "rev (rev xs) = rev (ys @ x # zs)" by simp
    then have "xs = rev zs @ x # rev ys" by simp
    with h show "\<exists>ys zs. xs = ys @ x # zs \<and> P x \<and> (\<forall>z\<in>set zs. \<not> P z)"
      by (intro exI [of _ "rev zs"] exI [of _ "rev ys"]) simp
  next
    assume "\<exists>ys zs. xs = ys @ x # zs \<and> P x \<and> (\<forall>z\<in>set zs. \<not> P z)"
    then obtain ys zs where h: "xs = ys @ x # zs" "P x" "\<forall>z\<in>set zs. \<not> P z" by blast
    then show "\<exists>ys zs. rev xs = ys @ x # zs \<and> P x \<and> (\<forall>y\<in>set ys. \<not> P y)"
      by (intro exI [of _ "rev zs"] exI [of _ "rev ys"]) simp
  qed
  then show ?thesis by (simp only: find_Some_split)
qed

text \<open>
  C4. \<^verbatim>\<open>previous_step\<close> is \<^verbatim>\<open>None\<close> exactly when no step before the index of
  \<open>s\<close> is active (so always at index 0), and it is \<open>p\<close> exactly when \<open>p\<close> is active,
  stands before the index of \<open>s\<close>, and only inactive steps stand between the two.
  \<^verbatim>\<open>next_step\<close> is the same towards the end: \<open>n\<close> is active, stands after \<open>s\<close>,
  and only inactive steps stand between. Neither returns an inactive step.
\<close>

theorem previous_next_step_scan:
  "(previous_step w x s = None \<longleftrightarrow>
      (\<forall>t\<in>set (take (index s) (steps_values w)). \<not> is_active (cls t) (attrs w) x)) \<and>
   (previous_step w x s = Some p \<longleftrightarrow>
      (\<exists>us vs. take (index s) (steps_values w) = us @ p # vs \<and> is_active (cls p) (attrs w) x \<and>
         (\<forall>v\<in>set vs. \<not> is_active (cls v) (attrs w) x))) \<and>
   (index s = 0 \<longrightarrow> previous_step w x s = None) \<and>
   (next_step w x s = None \<longleftrightarrow>
      (\<forall>t\<in>set (drop (index s + 1) (steps_values w)). \<not> is_active (cls t) (attrs w) x)) \<and>
   (next_step w x s = Some n \<longleftrightarrow>
      (\<exists>us vs. drop (index s + 1) (steps_values w) = us @ n # vs \<and> is_active (cls n) (attrs w) x \<and>
         (\<forall>u\<in>set us. \<not> is_active (cls u) (attrs w) x)))"
proof -
  have "previous_step w x s = None \<longleftrightarrow>
      (\<forall>t\<in>set (take (index s) (steps_values w)). \<not> is_active (cls t) (attrs w) x)"
    by (auto simp: previous_step_def find_None_iff)
  moreover have "previous_step w x s = Some p \<longleftrightarrow>
      (\<exists>us vs. take (index s) (steps_values w) = us @ p # vs \<and> is_active (cls p) (attrs w) x \<and>
         (\<forall>v\<in>set vs. \<not> is_active (cls v) (attrs w) x))"
    unfolding previous_step_def by (rule find_rev_Some_split)
  moreover have "index s = 0 \<longrightarrow> previous_step w x s = None"
    by (simp add: previous_step_def)
  moreover have "next_step w x s = None \<longleftrightarrow>
      (\<forall>t\<in>set (drop (index s + 1) (steps_values w)). \<not> is_active (cls t) (attrs w) x)"
    by (auto simp: next_step_def find_None_iff)
  moreover have "next_step w x s = Some n \<longleftrightarrow>
      (\<exists>us vs. drop (index s + 1) (steps_values w) = us @ n # vs \<and> is_active (cls n) (attrs w) x \<and>
         (\<forall>u\<in>set us. \<not> is_active (cls u) (attrs w) x))"
    unfolding next_step_def by (rule find_Some_split)
  ultimately show ?thesis by blast
qed

theorem previous_next_step_scan_witness:
  "previous_step example_workflow [''b_off''] \<lparr>cls = example_step ''c'', index = 2\<rparr>
     = Some \<lparr>cls = example_step ''a'', index = 0\<rparr> \<and>
   next_step example_workflow [''b_off''] \<lparr>cls = example_step ''a'', index = 0\<rparr>
     = Some \<lparr>cls = example_step ''c'', index = 2\<rparr> \<and>
   previous_step example_workflow [''b_off''] \<lparr>cls = example_step ''a'', index = 0\<rparr> = None \<and>
   next_step example_workflow [''b_off''] \<lparr>cls = example_step ''c'', index = 2\<rparr> = None"
proof -
  let ?a = "\<lparr>cls = example_step ''a'', index = 0\<rparr>"
  let ?b = "\<lparr>cls = example_step ''b'', index = 1\<rparr>"
  let ?c = "\<lparr>cls = example_step ''c'', index = 2\<rparr>"
  let ?on = "\<lambda>t. is_active (cls t) (attrs example_workflow) [''b_off'']"
  have v: "steps_values example_workflow = [?a, ?b, ?c]"
    by (simp add: steps_values_def example_workflow_def)
  have act: "?on ?a" "\<not> ?on ?b" "?on ?c"
    by (simp_all add: example_step_def)
  have "take (index ?c) (steps_values example_workflow) = [] @ ?a # [?b]"
    by (simp add: v)
  with act have p: "\<exists>us vs. take (index ?c) (steps_values example_workflow) = us @ ?a # vs \<and>
      ?on ?a \<and> (\<forall>v\<in>set vs. \<not> ?on v)"
    by (intro exI [of _ "[]"] exI [of _ "[?b]"]) simp
  have "drop (index ?a + 1) (steps_values example_workflow) = [?b] @ ?c # []"
    by (simp add: v)
  with act have n: "\<exists>us vs. drop (index ?a + 1) (steps_values example_workflow) = us @ ?c # vs \<and>
      ?on ?c \<and> (\<forall>u\<in>set us. \<not> ?on u)"
    by (intro exI [of _ "[?b]"] exI [of _ "[]"]) simp
  have e: "\<forall>t\<in>set (drop (index ?c + 1) (steps_values example_workflow)). \<not> ?on t"
    by (simp add: v)
  have i: "index ?a = 0" by simp
  from p n e i
    previous_next_step_scan [of example_workflow "[''b_off'']" ?c ?a ?c]
    previous_next_step_scan [of example_workflow "[''b_off'']" ?a ?a ?c]
  show ?thesis by blast
qed

text \<open>
  C6. \<^verbatim>\<open>active_steps\<close> is the sequence of the values of \<^verbatim>\<open>steps\<close> with the
  inactive ones left out, in the same order, for the external state of the access: it
  depends on nothing that an earlier access has left behind.
\<close>

theorem active_steps_live:
  "active_steps w x = filter (\<lambda>s. is_active (cls s) (attrs w) x) (steps_values w) \<and>
   subseq (active_steps w x) (steps_values w) \<and>
   (\<forall>s. s \<in> set (active_steps w x) \<longleftrightarrow>
      s \<in> set (steps_values w) \<and> is_active (cls s) (attrs w) x)"
  by (simp add: active_steps_def)
theorem active_steps_live_witness:
  "map index (active_steps example_workflow []) = [0, 1, 2] \<and>
   map index (active_steps example_workflow [''b_off'']) = [0, 2]"
  using active_steps_live [of example_workflow "[]"]
    active_steps_live [of example_workflow "[''b_off'']"]
  by (simp add: example_workflow_def steps_values_def example_step_def)

section \<open>Completion and accessibility\<close>

lemma odict_set_items: "set (odict_set d k v) \<subseteq> insert (k, v) (set d)"
  by (induction d) (auto split: if_splits)

lemma odict_set_image: "g ` set (odict_set d k v) \<subseteq> insert (g (k, v)) (g ` set d)"
  using image_mono [OF odict_set_items, of g d k v] by simp

lemma odict_set_distinct:
  "distinct (map g d) \<Longrightarrow> g (k, v) \<notin> g ` set d \<Longrightarrow> (\<And>k k' v. g (k, v) = g (k', v)) \<Longrightarrow>
   distinct (map g (odict_set d k v))"
proof (induction d)
  case Nil
  then show ?case by simp
next
  case (Cons a d)
  obtain k' v' where a: "a = (k', v')" by (cases a)
  from Cons.prems have d: "distinct (map g d)" and n: "g (k, v) \<notin> g ` set d"
    and a1: "g a \<notin> g ` set d" and a2: "g (k, v) \<noteq> g a"
    by auto
  show ?case
  proof (cases "k' = k")
    case True
    with d n show ?thesis by (simp add: a)
  next
    case False
    from Cons.IH [OF d n Cons.prems(3)] have "distinct (map g (odict_set d k v))" .
    moreover from odict_set_image [of g d k v] a1 a2 have "g a \<notin> g ` set (odict_set d k v)"
      by auto
    ultimately show ?thesis using False by (simp add: a)
  qed
qed

lemma foldl_odict_set_distinct_values:
  "distinct (map g (d @ items)) \<Longrightarrow> (\<And>k k' v. g (k, v) = g (k', v)) \<Longrightarrow>
   distinct (map g (foldl (\<lambda>d (k, v). odict_set d k v) d items))"
proof (induction items arbitrary: d)
  case Nil
  then show ?case by simp
next
  case (Cons kv items)
  obtain k v where kv: "kv = (k, v)" by (cases kv)
  let ?d = "odict_set d k v"
  define A where "A = g ` set d"
  define B where "B = g ` set items"
  define C where "C = g ` set ?d"
  from Cons.prems(1) kv have "distinct (map g d) \<and> g (k, v) \<notin> B \<and> distinct (map g items) \<and>
      A \<inter> insert (g (k, v)) B = {}"
    by (simp add: A_def B_def)
  then have dd: "distinct (map g d)" and rest: "distinct (map g items)"
    and out1: "g (k, v) \<notin> B" and out2: "A \<inter> B = {}" and fresh': "g (k, v) \<notin> A"
    by blast+
  from fresh' have fresh: "g (k, v) \<notin> g ` set d" by (simp add: A_def)
  have d1: "distinct (map g ?d)"
    using dd fresh Cons.prems(2) by (rule odict_set_distinct)
  from odict_set_image [of g d k v] have "C \<subseteq> insert (g (k, v)) A" by (simp add: A_def C_def)
  with out1 out2 have "C \<inter> B = {}" by blast
  with d1 rest have "distinct (map g (?d @ items))" by (simp add: B_def C_def)
  from Cons.IH [OF this Cons.prems(2)] show ?case by (simp add: kv)
qed

lemma Workflow_init_instances_distinct:
  assumes "Workflow_init step_classes x0 kwargs = Inr w"
  shows "instances_distinct w"
proof -
  let ?inc = "filter (\<lambda>c. include_in c kwargs x0) step_classes"
  let ?items = "map (\<lambda>(i, c). (slug c, \<lparr>cls = c, index = i\<rparr>)) (enumerate 0 ?inc)"
  from assms have w: "steps w = OrderedDict ?items"
    by (auto simp: Workflow_init_def Let_def split: if_splits)
  have "map (\<lambda>kv. index (snd kv)) ?items = map index (map snd ?items)" by simp
  also have "\<dots> = [0..<0 + length ?inc]" by (rule map_index_instances)
  finally have "distinct (map (\<lambda>kv. index (snd kv)) ([] @ ?items))" by simp
  then have "distinct (map (\<lambda>kv. index (snd kv)) (foldl (\<lambda>d (k, v). odict_set d k v) [] ?items))"
    by (rule foldl_odict_set_distinct_values) simp
  then have "distinct (map (\<lambda>kv. index (snd kv)) (OrderedDict ?items))"
    by (simp add: OrderedDict_def)
  then show ?thesis by (simp add: instances_distinct_def steps_values_def w comp_def)
qed

lemma instances_distinct_eq:
  "instances_distinct w \<Longrightarrow> s \<in> set (steps_values w) \<Longrightarrow> t \<in> set (steps_values w) \<Longrightarrow>
   index s = index t \<Longrightarrow> s = t"
proof -
  assume "instances_distinct w"
  then have "inj_on index (set (steps_values w))"
    by (simp add: instances_distinct_def distinct_map)
  moreover assume "s \<in> set (steps_values w)" "t \<in> set (steps_values w)" "index s = index t"
  ultimately show "s = t" by (simp add: inj_on_def)
qed

lemma previous_step_in: "previous_step w x s = Some p \<Longrightarrow> p \<in> set (steps_values w)"
proof -
  assume "previous_step w x s = Some p"
  then obtain ys zs where "rev (take (index s) (steps_values w)) = ys @ p # zs"
    unfolding previous_step_def find_Some_split by blast
  then have "p \<in> set (rev (take (index s) (steps_values w)))" by simp
  then show ?thesis by (auto dest: in_set_takeD)
qed

lemma previous_step_active: "previous_step w x s = Some p \<Longrightarrow> is_active (cls p) (attrs w) x"
  unfolding previous_step_def find_Some_split by auto

lemma agree_refl: "agree w x m m"
  by (simp add: agree_def)

lemma agree_trans: "agree w x m m1 \<Longrightarrow> agree w x m1 m2 \<Longrightarrow> agree w x m m2"
  by (simp add: agree_def)

lemma errors_val: "fst (errors w x s m) = eff_errors w x m s"
  by (simp add: errors_def eff_errors_def Let_def split: option.splits)

lemma errors_agree:
  assumes "instances_distinct w" "s \<in> set (steps_values w)"
  shows "agree w x m (snd (errors w x s m))"
proof (cases "errors_attr m (index s)")
  case None
  have "\<And>t. t \<in> set (steps_values w) \<Longrightarrow> index t = index s \<Longrightarrow> t = s"
    using assms instances_distinct_eq by blast
  then show ?thesis using None
    by (auto simp: agree_def errors_def Let_def eff_errors_def eff_completed_def)
next
  case (Some es)
  then show ?thesis by (simp add: errors_def agree_refl)
qed

lemma is_valid_val: "fst (is_valid w x s m) = (eff_errors w x m s = [])"
  using errors_val [of w x s m] by (cases "errors w x s m") (simp add: is_valid_def)

lemma is_valid_snd: "snd (is_valid w x s m) = snd (errors w x s m)"
  by (cases "errors w x s m") (simp add: is_valid_def)

lemma load_completed_val: "fst (load_completed w x s m) = eff_completed w x m s"
  by (simp add: load_completed_def eff_completed_def Let_def split: option.splits)

lemma load_completed_agree:
  assumes "instances_distinct w" "s \<in> set (steps_values w)"
  shows "agree w x m (snd (load_completed w x s m))"
proof (cases "completed_attr m (index s)")
  case None
  show ?thesis
    unfolding agree_def
  proof (intro ballI)
    fix t assume t: "t \<in> set (steps_values w)"
    show "eff_completed w x (snd (load_completed w x s m)) t = eff_completed w x m t \<and>
          eff_errors w x (snd (load_completed w x s m)) t = eff_errors w x m t"
    proof (cases "index t = index s")
      case True
      with instances_distinct_eq [OF assms t] have "t = s" by simp
      with None show ?thesis
        by (simp add: load_completed_def Let_def eff_errors_def eff_completed_def
            split: option.splits)
    next
      case False
      with None show ?thesis
        by (simp add: load_completed_def Let_def eff_errors_def eff_completed_def
            split: option.splits)
    qed
  qed
next
  case (Some c)
  then show ?thesis by (simp add: load_completed_def agree_refl)
qed

lemma completed_val_agree:
  "agree w x m m' \<Longrightarrow> s \<in> set (steps_values w) \<Longrightarrow>
   completed_val d w x m' s = completed_val d w x m s"
proof (induction d arbitrary: s)
  case 0
  then show ?case by simp
next
  case (Suc d)
  from Suc.prems have e: "eff_completed w x m' s = eff_completed w x m s"
    "eff_errors w x m' s = eff_errors w x m s"
    by (simp_all add: agree_def)
  show ?case
  proof (cases "previous_step w x s")
    case None
    then show ?thesis by (simp add: e split: sum.splits)
  next
    case (Some p)
    then have "p \<in> set (steps_values w)" by (rule previous_step_in)
    from Suc.IH [OF Suc.prems(1) this] Some show ?thesis by (simp add: e split: sum.splits)
  qed
qed

lemma is_completed_sound:
  "instances_distinct w \<Longrightarrow> s \<in> set (steps_values w) \<Longrightarrow>
   fst (is_completed d w x s m) = completed_val d w x m s \<and>
   agree w x m (snd (is_completed d w x s m))"
proof (induction d arbitrary: s m)
  case 0
  then show ?case by (simp add: agree_refl)
next
  case (Suc d)
  obtain r1 m1 where l: "load_completed w x s m = (r1, m1)" by (cases "load_completed w x s m")
  from load_completed_val [of w x s m] l have r1: "eff_completed w x m s = r1" by simp
  from load_completed_agree [OF Suc.prems, of x m] l have a1: "agree w x m m1" by simp
  obtain v m2 where iv: "is_valid w x s m1 = (v, m2)" by (cases "is_valid w x s m1")
  from is_valid_val [of w x s m1] iv have "v = (eff_errors w x m1 s = [])" by simp
  with a1 Suc.prems(2) have v: "(eff_errors w x m s = []) = v" by (simp add: agree_def)
  from errors_agree [OF Suc.prems, of x m1] is_valid_snd [of w x s m1] iv
  have "agree w x m1 m2" by simp
  with a1 have a2: "agree w x m m2" by (rule agree_trans)
  have rec: "fst (is_completed d w x p m2) = completed_val d w x m p \<and>
      agree w x m (snd (is_completed d w x p m2))" if "previous_step w x s = Some p" for p
  proof -
    from that have pin: "p \<in> set (steps_values w)" by (rule previous_step_in)
    from Suc.IH [OF Suc.prems(1) pin, of m2]
    have ih: "fst (is_completed d w x p m2) = completed_val d w x m2 p"
      "agree w x m2 (snd (is_completed d w x p m2))" by simp_all
    from completed_val_agree [OF a2 pin] ih(1)
    have "fst (is_completed d w x p m2) = completed_val d w x m p" by simp
    moreover from a2 ih(2) have "agree w x m (snd (is_completed d w x p m2))"
      by (rule agree_trans)
    ultimately show ?thesis by simp
  qed
  show ?case
  proof (cases r1)
    case (Inl e)
    with l r1 a1 show ?thesis by simp
  next
    case (Inr c)
    show ?thesis
    proof (cases "c \<and> v")
      case False
      with Inr l r1 a1 iv v a2 show ?thesis by auto
    next
      case True
      show ?thesis
      proof (cases "previous_step w x s")
        case None
        with True Inr l r1 iv v a2 show ?thesis by simp
      next
        case (Some p)
        with rec [OF Some] True Inr l r1 iv v show ?thesis by simp
      qed
    qed
  qed
qed

lemma completed_val_Suc_prev:
  "eff_completed w x m s = Inr True \<Longrightarrow> eff_errors w x m s = [] \<Longrightarrow>
   previous_step w x s = Some p \<Longrightarrow>
   completed_val (Suc d) w x m s = completed_val d w x m p"
  by simp

lemma completed_val_Suc_other:
  "\<not> (eff_completed w x m s = Inr True \<and> eff_errors w x m s = [] \<and>
      previous_step w x s \<noteq> None) \<Longrightarrow>
   completed_val (Suc d) w x m s = completed_val (Suc 0) w x m s"
  by (auto split: sum.splits)

lemma completed_val_mono:
  "completed_val d w x m s \<noteq> Inl RuntimeError \<Longrightarrow>
   completed_val (Suc d) w x m s = completed_val d w x m s"
proof (induction d arbitrary: s)
  case 0
  then show ?case by simp
next
  case (Suc d)
  show ?case
  proof (cases "eff_completed w x m s = Inr True \<and> eff_errors w x m s = [] \<and>
      previous_step w x s \<noteq> None")
    case True
    then obtain p where p: "previous_step w x s = Some p" by blast
    from True have ec: "eff_completed w x m s = Inr True" and ee: "eff_errors w x m s = []"
      by simp_all
    note u = completed_val_Suc_prev [OF ec ee p]
    from Suc.prems have "completed_val d w x m p \<noteq> Inl RuntimeError"
      unfolding u [of d] .
    then have "completed_val (Suc d) w x m p = completed_val d w x m p" by (rule Suc.IH)
    then show ?thesis by (simp only: u [of "Suc d"] u [of d])
  next
    case False
    from completed_val_Suc_other [OF False, of "Suc d"] completed_val_Suc_other [OF False, of d]
    show ?thesis by (simp only:)
  qed
qed

lemma completed_val_mono_add:
  "completed_val d w x m s \<noteq> Inl RuntimeError \<Longrightarrow>
   completed_val (d + k) w x m s = completed_val d w x m s"
proof (induction k)
  case 0
  show ?case by simp
next
  case (Suc k)
  then have e: "completed_val (d + k) w x m s = completed_val d w x m s" by simp
  with Suc.prems have "completed_val (d + k) w x m s \<noteq> Inl RuntimeError" by simp
  then have "completed_val (Suc (d + k)) w x m s = completed_val (d + k) w x m s"
    by (rule completed_val_mono)
  with e show ?case by simp
qed

lemma completed_val_mono_le:
  "completed_val d w x m s \<noteq> Inl RuntimeError \<Longrightarrow> d \<le> d' \<Longrightarrow>
   completed_val d' w x m s = completed_val d w x m s"
  using completed_val_mono_add [of d w x m s "d' - d"] by simp



lemma Workflow_init_example:
  "Workflow_init [example_step ''a'', example_step ''b'', example_step ''c''] [] Map.empty
     = Inr example_workflow"
  by (simp add: Workflow_init_def OrderedDict_def example_step_def enumerate_eq_zip
      example_workflow_def)

lemma dense_indices_nth:
  assumes "dense_indices w" "k < length (steps w)"
  shows "index (steps_values w ! k) = k"
proof -
  from assms(2) have k: "k < length (steps_values w)" by (simp add: steps_values_def)
  then have "index (steps_values w ! k) = map index (steps_values w) ! k" by simp
  also from assms have "\<dots> = k" by (simp add: dense_indices_def)
  finally show ?thesis .
qed

lemma dense_indices_split:
  assumes "dense_indices w" "steps_values w = ys @ s # zs"
  shows "index s = length ys"
proof -
  have "length (steps w) = length (steps_values w)" by (simp add: steps_values_def)
  also have "\<dots> = length (ys @ s # zs)" by (simp only: assms(2))
  finally have "length ys < length (steps w)" by simp
  from dense_indices_nth [OF assms(1) this] assms(2) show ?thesis by simp
qed

lemma dense_indices_example: "dense_indices example_workflow"
  by (simp add: dense_indices_def example_workflow_def steps_values_def upt_rec)

lemma filter_last_split:
  assumes "filter P xs \<noteq> []"
  shows "\<exists>ys zs. xs = ys @ last (filter P xs) # zs \<and> P (last (filter P xs)) \<and>
           (\<forall>z\<in>set zs. \<not> P z)"
proof -
  from assms have "\<exists>x\<in>set xs. P x" by (auto simp: filter_empty_conv)
  from split_list_last_prop [OF this]
  obtain ys x zs where s: "xs = ys @ x # zs" "P x" "\<forall>z\<in>set zs. \<not> P z"
    by blast
  then have "filter P xs = filter P ys @ [x]" by simp
  then have l: "last (filter P xs) = x" by simp
  from s have "xs = ys @ x # zs \<and> P x \<and> (\<forall>z\<in>set zs. \<not> P z)" by simp
  then show ?thesis unfolding l by (intro exI)
qed

lemma next_step_last_active:
  assumes "dense_indices w" "active_steps w x \<noteq> []"
  shows "next_step w x (last (active_steps w x)) = None"
proof -
  let ?P = "\<lambda>s. is_active (cls s) (attrs w) x"
  let ?s = "last (active_steps w x)"
  from assms(2) have "filter ?P (steps_values w) \<noteq> []" by (simp add: active_steps_def)
  from filter_last_split [OF this] obtain ys zs
    where s: "steps_values w = ys @ ?s # zs" "\<forall>z\<in>set zs. \<not> ?P z"
    unfolding active_steps_def by blast
  from dense_indices_split [OF assms(1) s(1)] have "index ?s = length ys" .
  with s(1) have "drop (index ?s + 1) (steps_values w) = zs" by simp
  with s(2) show ?thesis by (simp add: next_step_def find_None_iff)
qed








text \<open>
  C1. In a workflow built by the constructor, when \<^verbatim>\<open>is_completed\<close> of a step
  returns true, the step has no previous active step, or \<^verbatim>\<open>is_completed\<close> of its
  previous active step, called next, returns true as well.
\<close>

theorem is_completed_prefix:
  assumes "Workflow_init step_classes x0 kwargs = Inr w"
    and "s \<in> set (steps_values w)"
    and "fst (is_completed d w x s m) = Inr True"
  shows "previous_step w x s = None \<or>
         (\<exists>p. previous_step w x s = Some p \<and>
              fst (is_completed d w x p (snd (is_completed d w x s m))) = Inr True)"
proof (cases "previous_step w x s")
  case None
  then show ?thesis by simp
next
  case (Some p)
  from assms(1) have dist: "instances_distinct w" by (rule Workflow_init_instances_distinct)
  from Some have pin: "p \<in> set (steps_values w)" by (rule previous_step_in)
  let ?m' = "snd (is_completed d w x s m)"
  from is_completed_sound [OF dist assms(2), of d x m] assms(3)
  have v: "completed_val d w x m s = Inr True" and a: "agree w x m ?m'" by simp_all
  from v obtain d' where d: "d = Suc d'" by (cases d) auto
  from v Some have "completed_val d' w x m p = Inr True"
    unfolding d by (simp split: sum.splits if_splits)
  then have "completed_val d w x m p = Inr True"
    unfolding d using completed_val_mono [of d' w x m p] by simp
  with completed_val_agree [OF a pin, of d] have "completed_val d w x ?m' p = Inr True" by simp
  with is_completed_sound [OF dist pin, of d x ?m'] Some show ?thesis by simp
qed

theorem is_completed_prefix_witness:
  "Workflow_init [example_step ''a'', example_step ''b'', example_step ''c''] [] Map.empty
     = Inr example_workflow \<and>
   \<lparr>cls = example_step ''b'', index = 1\<rparr> \<in> set (steps_values example_workflow) \<and>
   fst (is_completed 3 example_workflow [''a_done'', ''b_done'']
          \<lparr>cls = example_step ''b'', index = 1\<rparr> memo0) = Inr True \<and>
   previous_step example_workflow [''a_done'', ''b_done'']
          \<lparr>cls = example_step ''b'', index = 1\<rparr> = Some \<lparr>cls = example_step ''a'', index = 0\<rparr> \<and>
   fst (is_completed 3 example_workflow [''a_done'', ''b_done'']
          \<lparr>cls = example_step ''a'', index = 0\<rparr>
          (snd (is_completed 3 example_workflow [''a_done'', ''b_done'']
                  \<lparr>cls = example_step ''b'', index = 1\<rparr> memo0))) = Inr True"
proof -
  let ?x = "[''a_done'', ''b_done'']"
  let ?a = "\<lparr>cls = example_step ''a'', index = 0\<rparr>"
  let ?b = "\<lparr>cls = example_step ''b'', index = 1\<rparr>"
  have h2: "?b \<in> set (steps_values example_workflow)"
    by (simp add: steps_values_def example_workflow_def)
  have p: "previous_step example_workflow ?x ?b = Some ?a"
    by (simp add: previous_step_def steps_values_def example_workflow_def example_step_def)
  have pa: "previous_step example_workflow ?x ?a = None"
    by (simp add: previous_step_def)
  have h3: "fst (is_completed 3 example_workflow ?x ?b memo0) = Inr True"
    by (simp add: eval_nat_numeral previous_step_def steps_values_def example_workflow_def
        load_completed_def is_valid_def errors_def memo0_def Let_def example_step_def)
  from is_completed_prefix [OF Workflow_init_example h2 h3] p Workflow_init_example h2 h3
  show ?thesis by simp
qed

text \<open>
  C2. \<^verbatim>\<open>is_accessible\<close> returns true exactly when no step before the index of the
  step is active, or the nearest active step before it (only inactive steps stand
  between the two) has \<^verbatim>\<open>is_completed\<close> return true.
\<close>

theorem is_accessible_iff:
  "fst (is_accessible d w x s m) = Inr True \<longleftrightarrow>
     (\<forall>t\<in>set (take (index s) (steps_values w)). \<not> is_active (cls t) (attrs w) x) \<or>
     (\<exists>us p vs. take (index s) (steps_values w) = us @ p # vs \<and>
        is_active (cls p) (attrs w) x \<and> (\<forall>v\<in>set vs. \<not> is_active (cls v) (attrs w) x) \<and>
        fst (is_completed d w x p m) = Inr True)"
proof (cases "previous_step w x s")
  case None
  then have "\<forall>t\<in>set (take (index s) (steps_values w)). \<not> is_active (cls t) (attrs w) x"
    by (auto simp: previous_step_def find_None_iff)
  with None show ?thesis by (simp add: is_accessible_def)
next
  case (Some p)
  then have d: "\<exists>us vs. take (index s) (steps_values w) = us @ p # vs \<and>
      is_active (cls p) (attrs w) x \<and> (\<forall>v\<in>set vs. \<not> is_active (cls v) (attrs w) x)"
    unfolding previous_step_def find_rev_Some_split .
  then have n: "\<not> (\<forall>t\<in>set (take (index s) (steps_values w)). \<not> is_active (cls t) (attrs w) x)"
    by auto
  have u: "q = p" if "take (index s) (steps_values w) = us @ q # vs"
    "is_active (cls q) (attrs w) x" "\<forall>v\<in>set vs. \<not> is_active (cls v) (attrs w) x" for us q vs
  proof -
    from that have "previous_step w x s = Some q"
      unfolding previous_step_def find_rev_Some_split by blast
    with Some show ?thesis by simp
  qed
  have "fst (is_accessible d w x s m) = fst (is_completed d w x p m)"
    using Some by (simp add: is_accessible_def)
  with d n u show ?thesis by (simp only:) blast
qed


theorem is_accessible_iff_witness:
  "fst (is_accessible 3 example_workflow [''a_done''] \<lparr>cls = example_step ''b'', index = 1\<rparr> memo0)
     = Inr True"
proof -
  let ?x = "[''a_done'']"
  let ?a = "\<lparr>cls = example_step ''a'', index = 0\<rparr>"
  let ?b = "\<lparr>cls = example_step ''b'', index = 1\<rparr>"
  have t: "take (index ?b) (steps_values example_workflow) = [] @ ?a # []"
    by (simp add: steps_values_def example_workflow_def)
  have a: "is_active (cls ?a) (attrs example_workflow) ?x"
    by (simp add: example_step_def)
  have c: "fst (is_completed 3 example_workflow ?x ?a memo0) = Inr True"
    by (simp add: eval_nat_numeral previous_step_def steps_values_def example_workflow_def
        load_completed_def is_valid_def errors_def memo0_def Let_def example_step_def)
  from t a c have "\<exists>us p vs. take (index ?b) (steps_values example_workflow) = us @ p # vs \<and>
        is_active (cls p) (attrs example_workflow) ?x \<and>
        (\<forall>v\<in>set vs. \<not> is_active (cls v) (attrs example_workflow) ?x) \<and>
        fst (is_completed 3 example_workflow ?x p memo0) = Inr True"
    by (intro exI [of _ "[]"] exI [of _ ?a]) simp
  with is_accessible_iff [of 3 example_workflow ?x ?b memo0] show ?thesis by blast
qed

text \<open>
  C10. \<^verbatim>\<open>is_accessible\<close> reads nothing of the step but its index, so not its
  \<^verbatim>\<open>is_active\<close>: an inactive step with no previous active step, or whose previous
  active step is completed, is accessible.
\<close>

theorem is_accessible_ignores_is_active:
  "(index s' = index s \<longrightarrow> is_accessible d w x s' m = is_accessible d w x s m) \<and>
   (\<not> is_active (cls s) (attrs w) x \<and>
    (previous_step w x s = None \<or>
     (\<exists>p. previous_step w x s = Some p \<and> fst (is_completed d w x p m) = Inr True))
    \<longrightarrow> fst (is_accessible d w x s m) = Inr True)"
  by (auto simp: is_accessible_def previous_step_def)

theorem is_accessible_ignores_is_active_witness:
  "\<not> is_active (cls \<lparr>cls = example_step ''b'', index = 1\<rparr>) (attrs example_workflow)
       [''a_done'', ''b_off''] \<and>
   fst (is_accessible 3 example_workflow [''a_done'', ''b_off'']
          \<lparr>cls = example_step ''b'', index = 1\<rparr> memo0) = Inr True"
proof -
  let ?x = "[''a_done'', ''b_off'']"
  let ?a = "\<lparr>cls = example_step ''a'', index = 0\<rparr>"
  let ?b = "\<lparr>cls = example_step ''b'', index = 1\<rparr>"
  have n: "\<not> is_active (cls ?b) (attrs example_workflow) ?x"
    by (simp add: example_step_def)
  have p: "previous_step example_workflow ?x ?b = Some ?a"
    by (simp add: previous_step_def steps_values_def example_workflow_def example_step_def)
  have c: "fst (is_completed 3 example_workflow ?x ?a memo0) = Inr True"
    by (simp add: eval_nat_numeral previous_step_def steps_values_def example_workflow_def
        load_completed_def is_valid_def errors_def memo0_def Let_def example_step_def)
  from n p c is_accessible_ignores_is_active [of ?b ?b 3 example_workflow ?x memo0]
  show ?thesis by blast
qed

section \<open>Memoisation\<close>















section \<open>The view mixin\<close>








lemma Workflow_init_dense_indices:
  assumes "Workflow_init step_classes x0 kwargs = Inr w"
    and "distinct (map slug (filter (\<lambda>c. include_in c kwargs x0) step_classes))"
  shows "dense_indices w"
proof -
  let ?inc = "filter (\<lambda>c. include_in c kwargs x0) step_classes"
  let ?items = "map (\<lambda>(i, c). (slug c, \<lparr>cls = c, index = i\<rparr>)) (enumerate 0 ?inc)"
  from assms(1) have "steps w = OrderedDict ?items"
    by (auto simp: Workflow_init_def Let_def split: if_splits)
  moreover have "OrderedDict ?items = ?items"
    using assms(2) by (intro OrderedDict_distinct) (simp only: map_fst_instances)
  ultimately have w: "steps w = ?items" by simp
  have "map index (map snd ?items) = [0..<0 + length ?inc]" by (rule map_index_instances)
  then show ?thesis by (simp add: dense_indices_def steps_values_def w)
qed





text \<open>
  C9. \<^verbatim>\<open>get_success_url\<close> returns the location of the current step when the step
  has errors. Without errors it returns the location of the next active step, and raises
  \<^verbatim>\<open>AttributeError\<close> when there is none, as for the last active step of a workflow.
\<close>

theorem get_success_url_cases:
  "(fst (errors w x s m) \<noteq> [] \<longrightarrow>
      fst (get_success_url reverse kwargs w x (Some s) m) =
        Inr (reverse (view_name (cls s)) (clean_kwargs kwargs))) \<and>
   (fst (errors w x s m) = [] \<longrightarrow>
      fst (get_success_url reverse kwargs w x (Some s) m) =
        (case next_step w x s of
           None \<Rightarrow> Inl AttributeError
         | Some n \<Rightarrow> Inr (reverse (view_name (cls n)) (clean_kwargs kwargs)))) \<and>
   (dense_indices w \<and> active_steps w x \<noteq> [] \<and> s = last (active_steps w x) \<and>
    fst (errors w x s m) = [] \<longrightarrow>
      fst (get_success_url reverse kwargs w x (Some s) m) = Inl AttributeError)"
proof -
  obtain es m' where e: "errors w x s m = (es, m')" by (cases "errors w x s m")
  have 1: "fst (get_success_url reverse kwargs w x (Some s) m) =
      Inr (reverse (view_name (cls s)) (clean_kwargs kwargs))" if "es \<noteq> []"
    using that e by (simp add: get_success_url_def)
  have 2: "fst (get_success_url reverse kwargs w x (Some s) m) =
      (case next_step w x s of
         None \<Rightarrow> Inl AttributeError
       | Some n \<Rightarrow> Inr (reverse (view_name (cls n)) (clean_kwargs kwargs)))" if "es = []"
    using that e by (simp add: get_success_url_def split: option.splits)
  have 3: "fst (get_success_url reverse kwargs w x (Some s) m) = Inl AttributeError"
    if "dense_indices w" "active_steps w x \<noteq> []" "s = last (active_steps w x)" "es = []"
    using 2 [OF that(4)] next_step_last_active [OF that(1,2)] that(3) by simp
  from 1 2 3 e show ?thesis by simp
qed

theorem get_success_url_cases_witness:
  "fst (get_success_url (\<lambda>view_name (kw :: string \<rightharpoonup> nat). view_name) Map.empty
          example_workflow [''b_bad''] (Some \<lparr>cls = example_step ''b'', index = 1\<rparr>) memo0)
     = Inr ''view_b'' \<and>
   fst (get_success_url (\<lambda>view_name (kw :: string \<rightharpoonup> nat). view_name) Map.empty
          example_workflow [''c_off''] (Some \<lparr>cls = example_step ''b'', index = 1\<rparr>) memo0)
     = Inl AttributeError"
proof -
  let ?b = "\<lparr>cls = example_step ''b'', index = 1\<rparr>"
  let ?rev = "\<lambda>view_name (kw :: string \<rightharpoonup> nat). view_name"
  have e1: "fst (errors example_workflow [''b_bad''] ?b memo0) \<noteq> []"
    by (simp add: errors_def memo0_def example_step_def Let_def)
  have e2: "fst (errors example_workflow [''c_off''] ?b memo0) = []"
    by (simp add: errors_def memo0_def example_step_def Let_def)
  have a: "active_steps example_workflow [''c_off'']
      = [\<lparr>cls = example_step ''a'', index = 0\<rparr>, ?b]"
    by (simp add: active_steps_def steps_values_def example_workflow_def example_step_def)
  have l: "active_steps example_workflow [''c_off''] \<noteq> []"
    "?b = last (active_steps example_workflow [''c_off''])"
    unfolding a by simp_all
  from get_success_url_cases [of example_workflow "[''b_bad'']" ?b memo0 ?rev Map.empty] e1
  have "fst (get_success_url ?rev Map.empty example_workflow [''b_bad''] (Some ?b) memo0)
      = Inr ''view_b''"
    by (simp add: example_step_def)
  moreover
  from get_success_url_cases [of example_workflow "[''c_off'']" ?b memo0 ?rev Map.empty]
    dense_indices_example l e2
  have "fst (get_success_url ?rev Map.empty example_workflow [''c_off''] (Some ?b) memo0)
      = Inl AttributeError"
    by blast
  ultimately show ?thesis by simp
qed

end
